theory Spec2Isabelle
  imports Main "HOL-Library.List_Lexorder" "HOL-Library.Char_ord" "HOL-Library.AList"
begin

section \<open>The xcompose key binding tree: data model\<close>

text \<open>
  The command builds a \<^verbatim>\<open>map[string]interface{}\<close> whose values are either a Go
  \<^verbatim>\<open>string\<close> (the text a key sequence inserts) or another
  \<^verbatim>\<open>map[string]interface{}\<close> (the bindings below a key). A node of the tree is
  therefore a tagged union. A Go map is modelled as an association list: the order of the
  list stands for the order in which \<^verbatim>\<open>range\<close> happens to visit the entries, which Go
  leaves unspecified; a map has every key once, so a well-formed list has distinct keys.
  Strings are byte lists, as Go strings are.
\<close>

datatype node = Leaf string | Interior "(string \<times> node) list"

type_synonym dict = "(string \<times> node) list"

abbreviation newline :: char where "newline \<equiv> CHR 0x0A"
abbreviation tab :: char where "tab \<equiv> CHR 0x09"
abbreviation dquote :: char where "dquote \<equiv> CHR 0x22"
abbreviation backslash :: char where "backslash \<equiv> CHR 0x5C"

section \<open>Standard library\<close>

text \<open>
  \<^verbatim>\<open>strconv.Quote\<close> and \<^verbatim>\<open>strings.ToUpper\<close> belong to the Go standard library
  and depend on its Unicode tables; they are parameters of the model.
  \<^verbatim>\<open>strings.HasPrefix\<close> and \<^verbatim>\<open>strings.Repeat\<close> (with a count that is not
  negative) are written out.
\<close>

record stdlib =
  Quote :: "string \<Rightarrow> string"
  ToUpper :: "string \<Rightarrow> string"

definition HasPrefix :: "string \<Rightarrow> string \<Rightarrow> bool" where
  "HasPrefix s p = (length p \<le> length s \<and> take (length p) s = p)"

definition Repeat :: "string \<Rightarrow> nat \<Rightarrow> string" where
  "Repeat s n = concat (replicate n s)"

section \<open>quote\<close>

text \<open>
  \<^verbatim>\<open>
  func quote(s string) string {
      s = strconv.Quote(s)
      if strings.HasPrefix(s, `"\u`) {
          s = strings.ToUpper(s)
      }
      return s
  }
  \<close>
\<close>

definition quote :: "stdlib \<Rightarrow> string \<Rightarrow> string" where
  "quote L s =
     (let s = Quote L s;
          s = (if HasPrefix s [dquote, backslash, CHR ''u''] then ToUpper L s else s)
      in s)"

section \<open>insert\<close>

text \<open>
  \<^verbatim>\<open>
  func insert(dst map[string]interface{}, val string, path ...string) {
      if len(path) == 0 { return }
      if dst == nil { dst = make(map[string]interface{}) }
      if len(path) == 1 { dst[path[0]] = val; return }
      child, ok := dst[path[0]]
      if !ok { child = make(map[string]interface{}); dst[path[0]] = child }
      dst, ok = child.(map[string]interface{})
      if !ok { return }
      insert(dst, val, path[1:]...)
  }
  \<close>
  The tree is owned by its builder and no map is reachable through two keys, so the
  mutation in place is a functional update: \<open>insert_dict dst val path\<close> is the content
  of the map \<open>dst\<close> after the call. The assignment \<^verbatim>\<open>dst[k] = v\<close> replaces the
  entry of \<open>k\<close> or adds one (\<open>AList.update\<close>); the recursive call changes the child map
  that the entry of \<open>path[0]\<close> refers to, so that entry holds the child's new content
  afterwards. Here \<open>dst\<close> is a map that exists; the call with a \<^verbatim>\<open>nil\<close> map, where
  the identity of the map matters, is \<open>insert_ref\<close> below.
\<close>

fun insert_dict :: "dict \<Rightarrow> string \<Rightarrow> string list \<Rightarrow> dict" where
  "insert_dict dst val [] = dst"
| "insert_dict dst val [k] = AList.update k (Leaf val) dst"
| "insert_dict dst val (k # path) =
     (let (child, dst) = (case map_of dst k of
                            None \<Rightarrow> (Interior [], AList.update k (Interior []) dst)
                          | Some child \<Rightarrow> (child, dst))
      in case child of
           Interior m \<Rightarrow> AList.update k (Interior (insert_dict m val path)) dst
         | Leaf _ \<Rightarrow> dst)"

text \<open>
  \<open>resolve d path\<close> is the node that \<open>path\<close> leads to from the root \<open>d\<close>, if there is
  one: each segment but the last must map to an interior node.
\<close>

fun resolve :: "dict \<Rightarrow> string list \<Rightarrow> node option" where
  "resolve d [] = Some (Interior d)"
| "resolve d (k # ks) =
     (case map_of d k of
        None \<Rightarrow> None
      | Some (Leaf v) \<Rightarrow> (if ks = [] then Some (Leaf v) else None)
      | Some (Interior c) \<Rightarrow> resolve c ks)"

text \<open>
  The same function on a store, for the call in which the map passed is \<^verbatim>\<open>nil\<close>. A
  Go map value is a reference: \<^verbatim>\<open>nil\<close> or the address of a map object. The store
  lists the content of the map objects, the address being the position in the list;
  \<^verbatim>\<open>make\<close> appends an empty map. A value of type \<^verbatim>\<open>interface{}\<close> in the tree
  is a string or a map reference. Reading a key of a \<^verbatim>\<open>nil\<close> map finds nothing;
  assigning to a key of a \<^verbatim>\<open>nil\<close> map panics, which is the result \<open>None\<close>. (An
  address outside the store is no value of a Go program; the operations give nothing
  there.) \<open>insert_ref h dst val path\<close> is the store after the call, the parameter
  \<open>dst\<close> being a local variable that the assignments rebind.
\<close>

type_synonym addr = nat

datatype iface = Str string | Map "addr option"

type_synonym store = "(string \<times> iface) list list"

definition make_map :: "store \<Rightarrow> addr \<times> store" where
  "make_map h = (length h, h @ [[]])"

definition map_get :: "store \<Rightarrow> addr option \<Rightarrow> string \<Rightarrow> iface option" where
  "map_get h m k =
     (case m of
        None \<Rightarrow> None
      | Some a \<Rightarrow> if a < length h then map_of (h ! a) k else None)"

definition map_set :: "store \<Rightarrow> addr option \<Rightarrow> string \<Rightarrow> iface \<Rightarrow> store option" where
  "map_set h m k v =
     (case m of
        None \<Rightarrow> None
      | Some a \<Rightarrow> if a < length h then Some (h[a := AList.update k v (h ! a)]) else None)"

fun insert_ref :: "store \<Rightarrow> addr option \<Rightarrow> string \<Rightarrow> string list \<Rightarrow> store option" where
  "insert_ref h dst val [] = Some h"
| "insert_ref h dst val (k # path) =
     (let (dst, h) = (case dst of
                        None \<Rightarrow> (let (a, h) = make_map h in (Some a, h))
                      | Some a \<Rightarrow> (Some a, h))
      in if path = [] then map_set h dst k (Str val)
         else
           (case (case map_get h dst k of
                    None \<Rightarrow> (let (c, h) = make_map h
                             in map_option (Pair (Map (Some c))) (map_set h dst k (Map (Some c))))
                  | Some child \<Rightarrow> Some (child, h)) of
              None \<Rightarrow> None
            | Some (child, h) \<Rightarrow>
                (case child of
                   Map dst \<Rightarrow> insert_ref h dst val path
                 | Str _ \<Rightarrow> Some h)))"

text \<open>
  The two models meet where the store holds a tree. \<open>rep h v n F\<close> says that in the store
  \<open>h\<close> the value \<open>v\<close> is the tree \<open>n\<close> and that \<open>F\<close> is the set of addresses of its
  maps: a string is a leaf; a reference to a map is an interior node when the map has the
  same keys in the same order, each entry holds the tree of the entry beside it, and no
  map belongs to two entries or lies below itself. \<open>idx k xs\<close> is the position of the
  first entry with key \<open>k\<close>, or the length of \<open>xs\<close> when there is none.
\<close>

inductive rep :: "store \<Rightarrow> iface \<Rightarrow> node \<Rightarrow> addr set \<Rightarrow> bool" where
  rep_Leaf: "rep h (Str s) (Leaf s) {}"
| rep_Interior:
    "a < length h \<Longrightarrow> length (h ! a) = length d \<Longrightarrow> length fs = length d \<Longrightarrow>
     (\<forall>i < length d. fst (h ! a ! i) = fst (d ! i) \<and>
                      rep h (snd (h ! a ! i)) (snd (d ! i)) (fs ! i) \<and> a \<notin> fs ! i) \<Longrightarrow>
     (\<forall>i < length d. \<forall>j < length d. i \<noteq> j \<longrightarrow> fs ! i \<inter> fs ! j = {}) \<Longrightarrow>
     rep h (Map (Some a)) (Interior d) (insert a (\<Union>(set fs)))"

inductive_cases rep_InteriorE: "rep h (Map (Some a)) (Interior d) F"

definition idx :: "string \<Rightarrow> (string \<times> 'v) list \<Rightarrow> nat" where
  "idx k xs = length (takeWhile (\<lambda>p. fst p \<noteq> k) xs)"

section \<open>format\<close>

text \<open>
  The sink is an \<^verbatim>\<open>io.Writer\<close>: a state and a \<^verbatim>\<open>Write\<close> method that takes the
  state and the bytes and returns the new state and the error, if any. Each
  \<^verbatim>\<open>fmt.Fprint\<close>, \<^verbatim>\<open>Fprintln\<close> and \<^verbatim>\<open>Fprintf\<close> call formats its
  arguments (all of them strings here, so formatting is concatenation) and hands the result
  to \<^verbatim>\<open>Write\<close> once, returning the error of that call.

  \<open>on_success r f\<close> is the statement pattern
  \<^verbatim>\<open>_, err = ...; if err != nil { return err }\<close>: when the step \<open>r\<close> gave an
  error the function returns it, otherwise it goes on with \<open>f\<close>.
\<close>

definition on_success :: "'s \<times> 'e option \<Rightarrow> ('s \<Rightarrow> 's \<times> 'e option) \<Rightarrow> 's \<times> 'e option" where
  "on_success r f = (case r of (s, Some err) \<Rightarrow> (s, Some err) | (s, None) \<Rightarrow> f s)"

lemma on_success_cong [fundef_cong]:
  "r = r' \<Longrightarrow> (\<And>s. r' = (s, None) \<Longrightarrow> f s = f' s) \<Longrightarrow> on_success r f = on_success r' f'"
  by (auto simp: on_success_def split: prod.splits option.splits)

lemma map_of_size:
  "size_option size (map_of d k) \<le> Suc (size_list (size_prod (\<lambda>_. 0) size) d)"
  by (induction d) auto

text \<open>
  \<open>format\<close> is the function of the source; \<open>format_keys\<close> is its loop
  \<^verbatim>\<open>for _, k := range keys\<close> and \<open>format_val\<close> the type switch on
  \<^verbatim>\<open>dict[k]\<close> (a string, a map, or neither: the switch has no default case). The depth
  is the nesting level: the program calls \<open>format\<close> with 0 and the recursive call passes
  \<open>depth + 1\<close>, so it is a natural number.
\<close>

function format :: "stdlib \<Rightarrow> ('s \<Rightarrow> string \<Rightarrow> 's \<times> 'e option) \<Rightarrow> 's \<Rightarrow> dict \<Rightarrow> nat \<Rightarrow> 's \<times> 'e option"
  and format_keys :: "stdlib \<Rightarrow> ('s \<Rightarrow> string \<Rightarrow> 's \<times> 'e option) \<Rightarrow> 's \<Rightarrow> dict \<Rightarrow> nat \<Rightarrow> string list \<Rightarrow> 's \<times> 'e option"
  and format_val :: "stdlib \<Rightarrow> ('s \<Rightarrow> string \<Rightarrow> 's \<times> 'e option) \<Rightarrow> 's \<Rightarrow> node option \<Rightarrow> nat \<Rightarrow> 's \<times> 'e option"
where
  \<open>format L w s dict depth =
     on_success (w s (''{'' @ [newline])) (\<lambda>s.
     on_success (format_keys L w s dict depth (sort (map fst dict))) (\<lambda>s.
     on_success (w s (Repeat [tab] depth @ ''}'')) (\<lambda>s.
     on_success (if depth \<noteq> 0 then w s '';'' else (s, None)) (\<lambda>s.
     w s [newline]))))\<close>
| \<open>format_keys L w s dict depth [] = (s, None)\<close>
| \<open>format_keys L w s dict depth (k # keys) =
     on_success (w s (Repeat [tab] (depth + 1) @ quote L k @ '' = '')) (\<lambda>s.
     on_success (format_val L w s (map_of dict k) depth) (\<lambda>s.
     format_keys L w s dict depth keys))\<close>
| \<open>format_val L w s (Some (Leaf val)) depth =
     w s (''("insertText:", '' @ quote L val @ '');'' @ [newline])\<close>
| \<open>format_val L w s (Some (Interior val)) depth = format L w s val (depth + 1)\<close>
| \<open>format_val L w s None depth = (s, None)\<close>
  by pat_completeness auto
termination
  apply (relation "inv_image (less_than <*lex*> less_than)
           (\<lambda>x. case x of
              Inl (L, w, s, dict, depth) \<Rightarrow>
                (Suc (size_list (size_prod (\<lambda>_. 0) size) dict), Suc (length dict))
            | Inr (Inl (L, w, s, dict, depth, keys)) \<Rightarrow>
                (Suc (size_list (size_prod (\<lambda>_. 0) size) dict), length keys)
            | Inr (Inr (L, w, s, v, depth)) \<Rightarrow> (size_option size v, 0))")
     apply (auto simp: map_of_size le_imp_less_or_eq)
  done

text \<open>
  The sink of the repository's test is a \<^verbatim>\<open>strings.Builder\<close>: its
  \<^verbatim>\<open>Write\<close> appends the bytes and never fails.
\<close>

definition Builder_Write :: "string \<Rightarrow> string \<Rightarrow> string \<times> 'e option" where
  "Builder_Write buf p = (buf @ p, None)"

declare format.simps [simp del]

section \<open>Notions used by the statements\<close>

text \<open>
  \<open>chunks L dict depth\<close> is the sequence of byte strings that \<open>format\<close> hands to
  \<^verbatim>\<open>Write\<close>, one per call, when no call fails; \<open>writes w s ps\<close> hands the strings
  \<open>ps\<close> to the writer in order and stops at the first error.
\<close>

fun writes :: "('s \<Rightarrow> string \<Rightarrow> 's \<times> 'e option) \<Rightarrow> 's \<Rightarrow> string list \<Rightarrow> 's \<times> 'e option" where
  "writes w s [] = (s, None)"
| "writes w s (p # ps) = on_success (w s p) (\<lambda>s. writes w s ps)"

lemma map_of_Interior_size:
  "map_of d k = Some (Interior c) \<Longrightarrow>
   size_list (size_prod (\<lambda>_. 0) size) c < size_list (size_prod (\<lambda>_. 0) size) d"
  by (induction d) (auto split: if_splits)

function chunks :: "stdlib \<Rightarrow> dict \<Rightarrow> nat \<Rightarrow> string list" where
  \<open>chunks L dict depth =
     [''{'' @ [newline]] @
     concat (map (\<lambda>k. (Repeat [tab] (depth + 1) @ quote L k @ '' = '') #
                       (case map_of dict k of
                          Some (Leaf val) \<Rightarrow> [''("insertText:", '' @ quote L val @ '');'' @ [newline]]
                        | Some (Interior val) \<Rightarrow> chunks L val (depth + 1)
                        | None \<Rightarrow> []))
                 (sort (map fst dict))) @
     [Repeat [tab] depth @ ''}''] @ (if depth \<noteq> 0 then ['';''] else []) @ [[newline]]\<close>
  by pat_completeness auto
termination
  by (relation "measure (\<lambda>(L, dict, depth). size_list (size_prod (\<lambda>_. 0) size) dict)")
     (auto dest: map_of_Interior_size)

declare chunks.simps [simp del]

definition entry_chunks :: "stdlib \<Rightarrow> dict \<Rightarrow> nat \<Rightarrow> string \<Rightarrow> string list" where
  \<open>entry_chunks L dict depth k =
     (Repeat [tab] (depth + 1) @ quote L k @ '' = '') #
     (case map_of dict k of
        Some (Leaf val) \<Rightarrow> [''("insertText:", '' @ quote L val @ '');'' @ [newline]]
      | Some (Interior val) \<Rightarrow> chunks L val (depth + 1)
      | None \<Rightarrow> [])\<close>

text \<open>
  \<open>logged w\<close> is the writer \<open>w\<close> with a record of its use: every call of
  \<^verbatim>\<open>Write\<close> is appended to a log with the bytes it was given and the error it returned.
\<close>

definition logged ::
  "('s \<Rightarrow> string \<Rightarrow> 's \<times> 'e option) \<Rightarrow>
   (string \<times> 'e option) list \<times> 's \<Rightarrow> string \<Rightarrow> ((string \<times> 'e option) list \<times> 's) \<times> 'e option" where
  "logged w ls p = (case ls of (log, s) \<Rightarrow> (case w s p of (s', r) \<Rightarrow> ((log @ [(p, r)], s'), r)))"

text \<open>\<open>rendered L dict depth\<close> is the text that \<open>format\<close> writes into an empty builder.\<close>

definition rendered :: "stdlib \<Rightarrow> dict \<Rightarrow> nat \<Rightarrow> string" where
  "rendered L dict depth =
     fst (format L (Builder_Write :: string \<Rightarrow> string \<Rightarrow> string \<times> unit option) [] dict depth)"



text \<open>
  A library for the examples. On a string of printable ASCII characters without double
  quote and backslash, as the keys and values of the repository's test are,
  \<^verbatim>\<open>strconv.Quote\<close> returns the string between double quotes; the control character
  U+0080 (the bytes C2 80 in UTF-8) it writes as \<^verbatim>\<open>\u0080\<close>. On ASCII text
  \<^verbatim>\<open>strings.ToUpper\<close> replaces the letters a to z by A to Z.
\<close>

definition upper_ascii :: "char \<Rightarrow> char" where
  "upper_ascii c =
     (case map_of (zip ''abcdefghijklmnopqrstuvwxyz'' ''ABCDEFGHIJKLMNOPQRSTUVWXYZ'') c of
        Some u \<Rightarrow> u
      | None \<Rightarrow> c)"

definition example_lib :: stdlib where
  "example_lib =
     \<lparr>Quote = (\<lambda>s. if s = [CHR 0xC2, CHR 0x80] then [dquote, backslash] @ ''u0080'' @ [dquote]
                     else [dquote] @ s @ [dquote]),
      ToUpper = map upper_ascii\<rparr>"

text \<open>A sink that counts the calls of \<^verbatim>\<open>Write\<close> and fails the call number \<open>n\<close>.\<close>

definition fail_at :: "nat \<Rightarrow> nat \<Rightarrow> string \<Rightarrow> nat \<times> string option" where
  "fail_at n calls p = (Suc calls, if calls = n then Some ''write failed'' else None)"

section \<open>Building the tree\<close>

lemma update_same: "map_of al k = Some v \<Longrightarrow> AList.update k v al = al"
  by (induction al) auto

text \<open>
  C9. With an empty path \<open>insert\<close> returns at once: the tree is unchanged. The function
  has no result and no step that can fail, so there is no error to signal.
\<close>

theorem insert_empty_path: "insert_dict dst val [] = dst"
  by simp

text \<open>
  C2. When a proper prefix \<open>p\<close> of the path \<open>p @ q\<close> (so \<open>q\<close> is not empty, and
  \<open>p\<close> is not empty either, since the empty path resolves to the root) resolves to a leaf,
  inserting at \<open>p @ q\<close> leaves the whole tree as it was.
\<close>

theorem insert_leaf_prefix:
  assumes "resolve dst p = Some (Leaf x)" and "q \<noteq> []"
  shows "insert_dict dst val (p @ q) = dst"
  using assms
proof (induction p arbitrary: dst)
  case Nil
  then show ?case by simp
next
  case (Cons k ks)
  obtain n where n: "map_of dst k = Some n"
    using Cons.prems(1) by (auto split: option.splits)
  show ?case
  proof (cases n)
    case (Leaf v)
    with n Cons.prems have "ks = []" by (auto split: if_splits)
    with n Leaf Cons.prems(2) show ?thesis by (cases q) auto
  next
    case (Interior c)
    with n Cons.prems have "resolve c ks = Some (Leaf x)" by simp
    then have "insert_dict c val (ks @ q) = c" using Cons.IH Cons.prems(2) by blast
    moreover have "ks @ q \<noteq> []" using Cons.prems(2) by simp
    then obtain a as where "ks @ q = a # as" by (cases "ks @ q") auto
    ultimately show ?thesis using n Interior by (simp add: update_same)
  qed
qed

text \<open>
  The example of the specification: after \<open>([a], x)\<close>, inserting \<open>([a, b], y)\<close> changes
  nothing and \<open>a\<close> still maps to the leaf \<open>x\<close>.
\<close>

theorem insert_leaf_prefix_witness:
  "resolve (insert_dict [] ''x'' [''a'']) [''a''] = Some (Leaf ''x'') \<and>
   insert_dict (insert_dict [] ''x'' [''a'']) ''y'' [''a'', ''b''] = insert_dict [] ''x'' [''a''] \<and>
   map_of (insert_dict (insert_dict [] ''x'' [''a'']) ''y'' [''a'', ''b'']) ''a'' = Some (Leaf ''x'')"
proof -
  have r: "resolve (insert_dict [] ''x'' [''a'']) [''a''] = Some (Leaf ''x'')" by simp
  have q: "[''b''] \<noteq> []" by simp
  show ?thesis
    using r insert_leaf_prefix [OF r q, of "''y''"] by simp
qed

text \<open>
  C3. With a path of one segment \<open>k\<close>, \<open>insert\<close> maps \<open>k\<close> to the leaf of the value,
  whatever \<open>k\<close> mapped to before, and changes no other key; so after inserting \<open>v1\<close> and
  then \<open>v2\<close> at the same path, the path resolves to \<open>v2\<close>.
\<close>

theorem insert_overwrite:
  "map_of (insert_dict dst val [k]) = (map_of dst)(k \<mapsto> Leaf val) \<and>
   resolve (insert_dict (insert_dict dst v1 [k]) v2 [k]) [k] = Some (Leaf v2)"
  by (simp add: AList.update_conv')

text \<open>
  C8. Inserting the same pair a second time changes nothing.
\<close>

theorem insert_idem:
  "insert_dict (insert_dict dst val path) val path = insert_dict dst val path"
proof (induction dst val path rule: insert_dict.induct)
  case (1 dst val)
  then show ?case by simp
next
  case (2 dst val k)
  then show ?case by (simp add: update_same AList.update_conv')
next
  case (3 dst val k v va)
  then show ?case
    by (auto simp: update_same AList.update_conv' split: option.splits node.splits)
qed

subsection \<open>The nil map\<close>

lemma insert_ref_fresh:
  assumes "a < length h" and "h ! a = []" and "path \<noteq> []"
  shows "\<exists>h'. insert_ref h (Some a) val path = Some h' \<and> length h \<le> length h' \<and>
              (\<forall>i < length h. i \<noteq> a \<longrightarrow> h' ! i = h ! i)"
  using assms
proof (induction path arbitrary: h a)
  case Nil
  then show ?case by simp
next
  case (Cons k path)
  show ?case
  proof (cases "path = []")
    case True
    with Cons.prems show ?thesis by (simp add: map_set_def)
  next
    case False
    let ?c = "length h"
    let ?h1 = "(h @ [[]])[a := [(k, Map (Some ?c))]]"
    have step: "insert_ref h (Some a) val (k # path) = insert_ref ?h1 (Some ?c) val path"
      using Cons.prems False by (simp add: map_get_def map_set_def make_map_def nth_append)
    have "?c < length ?h1" "?h1 ! ?c = []"
      using Cons.prems by (simp_all add: nth_list_update nth_append)
    from Cons.IH [OF this False] obtain h' where
      h': "insert_ref ?h1 (Some ?c) val path = Some h'" and len: "length ?h1 \<le> length h'"
      and same: "\<forall>i < length ?h1. i \<noteq> ?c \<longrightarrow> h' ! i = ?h1 ! i"
      by blast
    have "h' ! i = h ! i" if "i < length h" "i \<noteq> a" for i
      using same that by (simp add: nth_list_update nth_append)
    with step h' len show ?thesis by simp
  qed
qed

text \<open>
  C10. Called with a \<^verbatim>\<open>nil\<close> map, \<open>insert\<close> does not panic: it returns, and the
  store it leaves begins with the store it found, so every map that existed before the
  call has its content unchanged. What the call writes goes to maps made during the call,
  to which the caller, whose own variable is still \<^verbatim>\<open>nil\<close>, has no reference.
\<close>

theorem insert_nil:
  "\<exists>h'. insert_ref h None val path = Some h' \<and> take (length h) h' = h"
proof (cases path)
  case Nil
  then show ?thesis by simp
next
  case (Cons k ks)
  let ?a = "length h"
  let ?h0 = "h @ [[]]"
  have step: "insert_ref h None val path = insert_ref ?h0 (Some ?a) val path"
    using Cons by (simp add: make_map_def)
  have "?a < length ?h0" "?h0 ! ?a = []" "path \<noteq> []" using Cons by simp_all
  from insert_ref_fresh [OF this] obtain h' where
    h': "insert_ref ?h0 (Some ?a) val path = Some h'" and len: "length ?h0 \<le> length h'"
    and same: "\<forall>i < length ?h0. i \<noteq> ?a \<longrightarrow> h' ! i = ?h0 ! i"
    by blast
  have "take (length h) h' = h"
  proof (rule nth_equalityI)
    show "length (take (length h) h') = length h" using len by simp
  next
    fix i assume "i < length (take (length h) h')"
    then have i: "i < length h" by simp
    then show "take (length h) h' ! i = h ! i" using same by (simp add: nth_append)
  qed
  with step h' show ?thesis by simp
qed

text \<open>
  Two calls with \<^verbatim>\<open>nil\<close> on a store that holds one map: the map is untouched and the
  new maps follow it. The last line is the call of the repository's test
  \<^verbatim>\<open>one by two\<close>, on the empty map at address 0.
\<close>

lemma insert_ref_examples:
  "insert_ref [[(''a'', Str ''x'')]] None ''v'' [''1''] =
     Some [[(''a'', Str ''x'')], [(''1'', Str ''v'')]]"
  "insert_ref [[(''a'', Str ''x'')]] None ''v'' [''1'', ''2''] =
     Some [[(''a'', Str ''x'')], [(''1'', Map (Some 2))], [(''2'', Str ''v'')]]"
  "insert_ref [[]] (Some 0) ''text'' [''1'', ''2''] =
     Some [[(''1'', Map (Some 1))], [(''2'', Str ''text'')]]"
  by (simp_all add: make_map_def map_set_def map_get_def)

subsection \<open>The store and the tree\<close>

lemma idx_keys: "map fst xs = map fst ys \<Longrightarrow> idx k xs = idx k ys"
  unfolding idx_def
proof (induction xs arbitrary: ys)
  case Nil
  then show ?case by simp
next
  case (Cons x xs)
  then show ?case by (cases ys) auto
qed

lemma map_of_idx:
  "map_of xs k = (if idx k xs < length xs then Some (snd (xs ! idx k xs)) else None)"
  unfolding idx_def by (induction xs) auto

lemma fst_idx: "idx k xs < length xs \<Longrightarrow> fst (xs ! idx k xs) = k"
  unfolding idx_def by (induction xs) auto

lemma update_idx:
  "AList.update k v xs = (if idx k xs < length xs then xs[idx k xs := (k, v)] else xs @ [(k, v)])"
  unfolding idx_def by (induction xs) auto

lemma rep_bound: "rep h v n F \<Longrightarrow> F \<subseteq> {..<length h}"
proof (induction rule: rep.induct)
  case (rep_Leaf h s)
  then show ?case by simp
next
  case (rep_Interior a h d fs)
  note facts = rep_Interior.IH rep_Interior.hyps
  have "X \<subseteq> {..<length h}" if "X \<in> set fs" for X
  proof -
    from that obtain i where "i < length fs" "fs ! i = X"
      by (auto simp: in_set_conv_nth)
    with facts show ?thesis by auto
  qed
  then have "\<Union>(set fs) \<subseteq> {..<length h}" by blast
  with facts show ?case by simp
qed

lemma rep_frame:
  "rep h v n F \<Longrightarrow> length h \<le> length h' \<Longrightarrow> (\<forall>i\<in>F. h' ! i = h ! i) \<Longrightarrow> rep h' v n F"
proof (induction rule: rep.induct)
  case (rep_Leaf h s)
  then show ?case by (simp add: rep.rep_Leaf)
next
  case (rep_Interior a h d fs)
  note facts = rep_Interior.IH rep_Interior.hyps
  have a: "h' ! a = h ! a" using rep_Interior.prems by simp
  have len: "length fs = length d" using facts by simp
  have sub: "fs ! i \<subseteq> insert a (\<Union>(set fs))" if "i < length d" for i
    using that len nth_mem [of i fs] by auto
  show ?case
  proof (rule rep.rep_Interior)
    show "a < length h'" using facts rep_Interior.prems by simp
    show "length (h' ! a) = length d" using a facts by simp
    show "length fs = length d" by fact
    show "\<forall>i<length d. fst (h' ! a ! i) = fst (d ! i) \<and>
            rep h' (snd (h' ! a ! i)) (snd (d ! i)) (fs ! i) \<and> a \<notin> fs ! i"
    proof (intro allI impI)
      fix i assume i: "i < length d"
      have "\<forall>x\<in>fs ! i. h' ! x = h ! x" using sub [OF i] rep_Interior.prems(2) by blast
      with facts i rep_Interior.prems(1) a
      show "fst (h' ! a ! i) = fst (d ! i) \<and>
            rep h' (snd (h' ! a ! i)) (snd (d ! i)) (fs ! i) \<and> a \<notin> fs ! i"
        by simp
    qed
    show "\<forall>i<length d. \<forall>j<length d. i \<noteq> j \<longrightarrow> fs ! i \<inter> fs ! j = {}"
      using facts by blast
  qed
qed

lemma insert_dict_step:
  "path \<noteq> [] \<Longrightarrow> insert_dict d val (k # path) =
     (case map_of d k of
        None \<Rightarrow> AList.update k (Interior (insert_dict [] val path)) (AList.update k (Interior []) d)
      | Some (Leaf v) \<Rightarrow> d
      | Some (Interior m) \<Rightarrow> AList.update k (Interior (insert_dict m val path)) d)"
  by (cases path) (auto split: option.splits node.splits)

lemma insert_ref_step:
  "path \<noteq> [] \<Longrightarrow> a < length h \<Longrightarrow> insert_ref h (Some a) val (k # path) =
     (case map_of (h ! a) k of
        None \<Rightarrow> insert_ref ((h @ [[]])[a := AList.update k (Map (Some (length h))) (h ! a)])
                  (Some (length h)) val path
      | Some (Str v) \<Rightarrow> Some h
      | Some (Map m) \<Rightarrow> insert_ref h m val path)"
  by (auto simp: map_get_def map_set_def make_map_def nth_append split: option.splits iface.splits)

lemma rep_empty: "c < length h \<Longrightarrow> h ! c = [] \<Longrightarrow> rep h (Map (Some c)) (Interior []) {c}"
  using rep_Interior [of c h "[]" "[]"] by simp

lemma Union_update_subset: "\<Union>(set (fs[i := X])) \<subseteq> X \<union> \<Union>(set fs)"
  by (auto dest!: subsetD [OF set_update_subset_insert])

lemma nth_subset_Union: "i < length fs \<Longrightarrow> fs ! i \<subseteq> \<Union>(set fs)"
  by (simp add: Union_upper)

lemma disj_update:
  fixes fs :: "addr set list"
  assumes "\<forall>p<n. \<forall>q<n. p \<noteq> q \<longrightarrow> fs ! p \<inter> fs ! q = {}" and "length fs = n"
    and "\<forall>q<n. q \<noteq> i \<longrightarrow> X \<inter> fs ! q = {}"
  shows "\<forall>p<n. \<forall>q<n. p \<noteq> q \<longrightarrow> fs[i := X] ! p \<inter> fs[i := X] ! q = {}"
proof (intro allI impI)
  fix p q assume pq: "p < n" "q < n" "p \<noteq> q"
  consider "p = i" | "q = i" | "p \<noteq> i" "q \<noteq> i" by blast
  then show "fs[i := X] ! p \<inter> fs[i := X] ! q = {}"
  proof cases
    case 1
    with pq assms show ?thesis by simp
  next
    case 2
    with pq assms show ?thesis by (simp add: Int_commute)
  next
    case 3
    with pq assms show ?thesis by simp
  qed
qed

lemma disj_append:
  fixes fs :: "addr set list"
  assumes "\<forall>p<n. \<forall>q<n. p \<noteq> q \<longrightarrow> fs ! p \<inter> fs ! q = {}" and "length fs = n"
    and "\<forall>q<n. X \<inter> fs ! q = {}"
  shows "\<forall>p<Suc n. \<forall>q<Suc n. p \<noteq> q \<longrightarrow> (fs @ [X]) ! p \<inter> (fs @ [X]) ! q = {}"
proof (intro allI impI)
  fix p q assume pq: "p < Suc n" "q < Suc n" "p \<noteq> q"
  consider "p = n" "q < n" | "q = n" "p < n" | "p < n" "q < n" using pq by linarith
  then show "(fs @ [X]) ! p \<inter> (fs @ [X]) ! q = {}"
  proof cases
    case 1
    with assms show ?thesis by (simp add: nth_append)
  next
    case 2
    with assms show ?thesis by (simp add: nth_append Int_commute)
  next
    case 3
    with pq assms show ?thesis by (simp add: nth_append)
  qed
qed

lemma rep_replace:
  assumes a: "a < length h" and les: "length (h ! a) = length d" and lfs: "length fs = length d"
    and ch: "\<forall>j<length d. fst (h ! a ! j) = fst (d ! j) \<and>
               rep h (snd (h ! a ! j)) (snd (d ! j)) (fs ! j) \<and> a \<notin> fs ! j"
    and dj: "\<forall>p<length d. \<forall>q<length d. p \<noteq> q \<longrightarrow> fs ! p \<inter> fs ! q = {}"
    and len: "length h \<le> length h'" and i: "i < length d"
    and ha: "h' ! a = (h ! a)[i := (k, v')]"
    and new: "rep h' v' n' X" "a \<notin> X" "\<forall>q<length d. q \<noteq> i \<longrightarrow> X \<inter> fs ! q = {}"
    and frame: "\<forall>q<length d. q \<noteq> i \<longrightarrow> (\<forall>x\<in>fs ! q. h' ! x = h ! x)"
  shows "rep h' (Map (Some a)) (Interior (d[i := (k, n')])) (insert a (\<Union>(set (fs[i := X]))))"
proof (rule rep_Interior)
  let ?d = "d[i := (k, n')]" and ?fs = "fs[i := X]"
  show "a < length h'" using a len by simp
  show "length (h' ! a) = length ?d" using ha les by simp
  show "length ?fs = length ?d" using lfs by simp
  show "\<forall>j<length ?d. fst (h' ! a ! j) = fst (?d ! j) \<and>
          rep h' (snd (h' ! a ! j)) (snd (?d ! j)) (?fs ! j) \<and> a \<notin> ?fs ! j"
  proof (intro allI impI)
    fix j assume "j < length ?d"
    then have j: "j < length d" by simp
    show "fst (h' ! a ! j) = fst (?d ! j) \<and>
          rep h' (snd (h' ! a ! j)) (snd (?d ! j)) (?fs ! j) \<and> a \<notin> ?fs ! j"
    proof (cases "j = i")
      case True
      with i les lfs ha new show ?thesis by simp
    next
      case False
      have "rep h' (snd (h ! a ! j)) (snd (d ! j)) (fs ! j)"
      proof (rule rep_frame)
        show "rep h (snd (h ! a ! j)) (snd (d ! j)) (fs ! j)" using ch j by blast
        show "length h \<le> length h'" by fact
        show "\<forall>x\<in>fs ! j. h' ! x = h ! x" using frame j False by blast
      qed
      moreover have "fst (h ! a ! j) = fst (d ! j)" "a \<notin> fs ! j" using ch j by blast+
      ultimately show ?thesis using False j ha by simp
    qed
  qed
  show "\<forall>p<length ?d. \<forall>q<length ?d. p \<noteq> q \<longrightarrow> ?fs ! p \<inter> ?fs ! q = {}"
    using disj_update [OF dj lfs new(3)] by simp
qed

lemma rep_extend:
  assumes a: "a < length h" and les: "length (h ! a) = length d" and lfs: "length fs = length d"
    and ch: "\<forall>j<length d. fst (h ! a ! j) = fst (d ! j) \<and>
               rep h (snd (h ! a ! j)) (snd (d ! j)) (fs ! j) \<and> a \<notin> fs ! j"
    and dj: "\<forall>p<length d. \<forall>q<length d. p \<noteq> q \<longrightarrow> fs ! p \<inter> fs ! q = {}"
    and len: "length h \<le> length h'"
    and ha: "h' ! a = h ! a @ [(k, v')]"
    and new: "rep h' v' n' X" "a \<notin> X" "\<forall>q<length d. X \<inter> fs ! q = {}"
    and frame: "\<forall>q<length d. \<forall>x\<in>fs ! q. h' ! x = h ! x"
  shows "rep h' (Map (Some a)) (Interior (d @ [(k, n')])) (insert a (\<Union>(set (fs @ [X]))))"
proof (rule rep_Interior)
  let ?d = "d @ [(k, n')]" and ?fs = "fs @ [X]"
  show "a < length h'" using a len by simp
  show "length (h' ! a) = length ?d" using ha les by simp
  show "length ?fs = length ?d" using lfs by simp
  show "\<forall>j<length ?d. fst (h' ! a ! j) = fst (?d ! j) \<and>
          rep h' (snd (h' ! a ! j)) (snd (?d ! j)) (?fs ! j) \<and> a \<notin> ?fs ! j"
  proof (intro allI impI)
    fix j assume "j < length ?d"
    then consider "j < length d" | "j = length d" by fastforce
    then show "fst (h' ! a ! j) = fst (?d ! j) \<and>
          rep h' (snd (h' ! a ! j)) (snd (?d ! j)) (?fs ! j) \<and> a \<notin> ?fs ! j"
    proof cases
      case 1
      have "rep h' (snd (h ! a ! j)) (snd (d ! j)) (fs ! j)"
      proof (rule rep_frame)
        show "rep h (snd (h ! a ! j)) (snd (d ! j)) (fs ! j)" using ch 1 by blast
        show "length h \<le> length h'" by fact
        show "\<forall>x\<in>fs ! j. h' ! x = h ! x" using frame 1 by blast
      qed
      moreover have "fst (h ! a ! j) = fst (d ! j)" "a \<notin> fs ! j" using ch 1 by blast+
      ultimately show ?thesis using 1 ha les lfs by (simp add: nth_append)
    next
      case 2
      with les lfs ha new show ?thesis by (simp add: nth_append)
    qed
  qed
  show "\<forall>p<length ?d. \<forall>q<length ?d. p \<noteq> q \<longrightarrow> ?fs ! p \<inter> ?fs ! q = {}"
    using disj_append [OF dj lfs new(3)] by simp
qed

text \<open>
  On a store that holds the tree \<open>d\<close> at the address \<open>a\<close>, \<open>insert\<close> does not panic,
  leaves the tree \<open>insert_dict d val path\<close> at \<open>a\<close>, and changes no map outside the
  tree: the functional model computes what the code does to the maps in place.
\<close>

lemma update_update_absent:
  "map_of d k = None \<Longrightarrow> AList.update k v (AList.update k w d) = d @ [(k, v)]"
  by (induction d) (auto split: if_splits)

lemma insert_ref_insert_dict:
  assumes "rep h (Map (Some a)) (Interior d) F"
  shows "\<exists>h' F'. insert_ref h (Some a) val path = Some h' \<and>
           rep h' (Map (Some a)) (Interior (insert_dict d val path)) F' \<and>
           length h \<le> length h' \<and> (\<forall>x < length h. x \<notin> F \<longrightarrow> h' ! x = h ! x) \<and>
           F' \<subseteq> F \<union> {length h..<length h'}"
  using assms
proof (induction path arbitrary: h a d F)
  case Nil
  then show ?case by auto
next
  case (Cons k path)
  from Cons.prems obtain fs where
    a: "a < length h" and les: "length (h ! a) = length d" and lfs: "length fs = length d" and
    ch: "\<forall>j<length d. fst (h ! a ! j) = fst (d ! j) \<and>
            rep h (snd (h ! a ! j)) (snd (d ! j)) (fs ! j) \<and> a \<notin> fs ! j" and
    dj: "\<forall>p<length d. \<forall>q<length d. p \<noteq> q \<longrightarrow> fs ! p \<inter> fs ! q = {}" and
    F: "F = insert a (\<Union>(set fs))"
    by (auto elim!: rep_InteriorE)
  let ?es = "h ! a"
  let ?i = "idx k d"
  have keys: "map fst ?es = map fst d"
    using les ch by (intro nth_equalityI) simp_all
  have i: "idx k ?es = ?i" using keys by (rule idx_keys)
  have fsF: "fs ! j \<subseteq> F" if "j < length d" for j
    using nth_subset_Union [of j fs] that lfs F by auto
  have bound: "fs ! j \<subseteq> {..<length h}" if "j < length d" for j
    using rep_bound ch that by blast
  have notin: "a \<notin> fs ! j" if "j < length d" for j using ch that by blast
  show ?case
  proof (cases "path = []")
    case True
    let ?h' = "h[a := AList.update k (Str val) ?es]"
    have run: "insert_ref h (Some a) val (k # path) = Some ?h'"
      using True a by (simp add: map_set_def)
    have val: "insert_dict d val (k # path) = AList.update k (Leaf val) d"
      using True by simp
    have frame: "\<forall>q<length d. \<forall>x\<in>fs ! q. ?h' ! x = h ! x"
      using notin by (metis nth_list_update_neq)
    have "\<exists>F'. rep ?h' (Map (Some a)) (Interior (AList.update k (Leaf val) d)) F' \<and> F' \<subseteq> F"
    proof (cases "?i < length d")
      case present: True
      have ha: "?h' ! a = ?es[?i := (k, Str val)]"
        using a les i present by (simp add: update_idx)
      have hd: "AList.update k (Leaf val) d = d[?i := (k, Leaf val)]"
        using present by (simp add: update_idx)
      have "rep ?h' (Map (Some a)) (Interior (AList.update k (Leaf val) d))
              (insert a (\<Union>(set (fs[?i := {}]))))"
        unfolding hd
        using frame by (intro rep_replace [OF a les lfs ch dj _ present ha rep_Leaf]) simp_all
      moreover have "insert a (\<Union>(set (fs[?i := {}]))) \<subseteq> F"
        using Union_update_subset [of fs ?i "{}"] F by auto
      ultimately show ?thesis by blast
    next
      case absent: False
      have ha: "?h' ! a = ?es @ [(k, Str val)]"
        using a les i absent by (simp add: update_idx)
      have hd: "AList.update k (Leaf val) d = d @ [(k, Leaf val)]"
        using absent by (simp add: update_idx)
      have "rep ?h' (Map (Some a)) (Interior (AList.update k (Leaf val) d))
              (insert a (\<Union>(set (fs @ [{}]))))"
        unfolding hd
        using frame by (intro rep_extend [OF a les lfs ch dj _ ha rep_Leaf]) simp_all
      moreover have "insert a (\<Union>(set (fs @ [{}]))) \<subseteq> F" using F by auto
      ultimately show ?thesis by blast
    qed
    then obtain F' where
      "rep ?h' (Map (Some a)) (Interior (AList.update k (Leaf val) d)) F'" "F' \<subseteq> F"
      by blast
    moreover have "\<forall>x < length h. x \<notin> F \<longrightarrow> ?h' ! x = h ! x" using F by auto
    moreover have "length h \<le> length ?h'" by simp
    moreover have "F \<subseteq> F \<union> {length h..<length ?h'}" by blast
    ultimately show ?thesis unfolding run val by blast
  next
    case False
    note path = False
    show ?thesis
    proof (cases "?i < length d")
      case present: True
      have entry: "?es ! ?i = (k, snd (?es ! ?i))" "d ! ?i = (k, snd (d ! ?i))"
        using fst_idx [of k d] fst_idx [of k ?es] i les present
        by (simp_all add: prod_eq_iff)
      have get: "map_of ?es k = Some (snd (?es ! ?i))" "map_of d k = Some (snd (d ! ?i))"
        using map_of_idx [of ?es k] map_of_idx [of d k] i les present by simp_all
      have child: "rep h (snd (?es ! ?i)) (snd (d ! ?i)) (fs ! ?i)"
        using ch present by blast
      show ?thesis
      proof (cases "snd (d ! ?i)")
        case (Leaf s)
        with child have "snd (?es ! ?i) = Str s" by (auto elim: rep.cases)
        with Leaf get path a have run: "insert_ref h (Some a) val (k # path) = Some h"
          and val: "insert_dict d val (k # path) = d"
          by (simp_all add: insert_ref_step insert_dict_step del: insert_ref.simps)
        have "length h \<le> length h" "F \<subseteq> F \<union> {length h..<length h}" by auto
        with Cons.prems show ?thesis unfolding run val by blast
      next
        case (Interior m)
        with child obtain b where b: "snd (?es ! ?i) = Map (Some b)"
          by (auto elim: rep.cases)
        from child b Interior have "rep h (Map (Some b)) (Interior m) (fs ! ?i)" by simp
        from Cons.IH [OF this, of ] obtain h' X where
          run': "insert_ref h (Some b) val path = Some h'" and
          rep': "rep h' (Map (Some b)) (Interior (insert_dict m val path)) X" and
          len: "length h \<le> length h'" and
          fr: "\<forall>x < length h. x \<notin> fs ! ?i \<longrightarrow> h' ! x = h ! x" and
          X: "X \<subseteq> fs ! ?i \<union> {length h..<length h'}"
          by blast
        have run: "insert_ref h (Some a) val (k # path) = Some h'"
          using path a get b run' by (simp add: insert_ref_step del: insert_ref.simps)
        have val: "insert_dict d val (k # path) =
            d[?i := (k, Interior (insert_dict m val path))]"
          using path get Interior present by (simp add: insert_dict_step update_idx)
        have "?es ! ?i = (k, Map (Some b))" using entry(1) b by simp
        then have "?es[?i := (k, Map (Some b))] = ?es" by (metis list_update_id)
        moreover have "h' ! a = ?es" using fr a notin [OF present] by blast
        ultimately have ha: "h' ! a = ?es[?i := (k, Map (Some b))]" by simp
        have aX: "a \<notin> X" using X notin [OF present] a by auto
        have Xd: "\<forall>q<length d. q \<noteq> ?i \<longrightarrow> X \<inter> fs ! q = {}"
        proof (intro allI impI)
          fix q assume q: "q < length d" "q \<noteq> ?i"
          have "fs ! ?i \<inter> fs ! q = {}" using dj present q by blast
          moreover have "fs ! q \<subseteq> {..<length h}" using bound q by blast
          ultimately show "X \<inter> fs ! q = {}" using X by fastforce
        qed
        have frame: "\<forall>q<length d. q \<noteq> ?i \<longrightarrow> (\<forall>x\<in>fs ! q. h' ! x = h ! x)"
        proof (intro allI impI ballI)
          fix q x assume q: "q < length d" "q \<noteq> ?i" and x: "x \<in> fs ! q"
          have "fs ! ?i \<inter> fs ! q = {}" using dj present q by blast
          with x have "x \<notin> fs ! ?i" by blast
          moreover have "x < length h" using bound [OF q(1)] x by auto
          ultimately show "h' ! x = h ! x" using fr by blast
        qed
        have "rep h' (Map (Some a)) (Interior (d[?i := (k, Interior (insert_dict m val path))]))
                (insert a (\<Union>(set (fs[?i := X]))))"
          by (rule rep_replace [OF a les lfs ch dj len present ha rep' aX Xd frame])
        moreover have "insert a (\<Union>(set (fs[?i := X]))) \<subseteq> F \<union> {length h..<length h'}"
          using Union_update_subset [of fs ?i X] X F fsF [OF present] by auto
        moreover have "\<forall>x < length h. x \<notin> F \<longrightarrow> h' ! x = h ! x"
          using fr fsF [OF present] by blast
        ultimately show ?thesis unfolding run val using len by blast
      qed
    next
      case absent: False
      let ?c = "length h"
      let ?h1 = "(h @ [[]])[a := ?es @ [(k, Map (Some ?c))]]"
      have get: "map_of ?es k = None" "map_of d k = None"
        using map_of_idx [of ?es k] map_of_idx [of d k] i les absent by simp_all
      have "rep ?h1 (Map (Some ?c)) (Interior []) {?c}"
        using a by (intro rep_empty) (simp_all add: nth_append)
      from Cons.IH [OF this] obtain h' X where
        run': "insert_ref ?h1 (Some ?c) val path = Some h'" and
        rep': "rep h' (Map (Some ?c)) (Interior (insert_dict [] val path)) X" and
        len1: "length ?h1 \<le> length h'" and
        fr: "\<forall>x < length ?h1. x \<notin> {?c} \<longrightarrow> h' ! x = ?h1 ! x" and
        X: "X \<subseteq> {?c} \<union> {length ?h1..<length h'}"
        by blast
      have len: "length h \<le> length h'" using len1 by simp
      have run: "insert_ref h (Some a) val (k # path) = Some h'"
        using path a get run' i les absent by (simp add: insert_ref_step update_idx del: insert_ref.simps)
      have "insert_dict d val (k # path) =
          AList.update k (Interior (insert_dict [] val path)) (AList.update k (Interior []) d)"
        using path get by (simp add: insert_dict_step)
      also have "\<dots> = d @ [(k, Interior (insert_dict [] val path))]"
        by (rule update_update_absent [OF get(2)])
      finally have val:
        "insert_dict d val (k # path) = d @ [(k, Interior (insert_dict [] val path))]" .
      have old: "h' ! x = h ! x" if "x < length h" "x \<noteq> a" for x
        using fr that by (simp add: nth_append)
      have ha: "h' ! a = ?es @ [(k, Map (Some ?c))]"
        using fr a by (simp add: nth_append)
      have aX: "a \<notin> X" using X a by auto
      have Xd: "\<forall>q<length d. X \<inter> fs ! q = {}"
      proof (intro allI impI)
        fix q assume q: "q < length d"
        have "fs ! q \<subseteq> {..<length h}" using bound q by blast
        then show "X \<inter> fs ! q = {}" using X by fastforce
      qed
      have frame: "\<forall>q<length d. \<forall>x\<in>fs ! q. h' ! x = h ! x"
      proof (intro allI impI ballI)
        fix q x assume q: "q < length d" and x: "x \<in> fs ! q"
        have "x < length h" using bound [OF q] x by auto
        moreover have "x \<noteq> a" using notin [OF q] x by blast
        ultimately show "h' ! x = h ! x" by (rule old)
      qed
      have "rep h' (Map (Some a)) (Interior (d @ [(k, Interior (insert_dict [] val path))]))
              (insert a (\<Union>(set (fs @ [X]))))"
        by (rule rep_extend [OF a les lfs ch dj len ha rep' aX Xd frame])
      moreover have "X \<subseteq> {length h..<length h'}"
      proof
        fix x assume "x \<in> X"
        with X have "x = length h \<or> x \<in> {length ?h1..<length h'}" by blast
        then show "x \<in> {length h..<length h'}" using len1 by auto
      qed
      then have "insert a (\<Union>(set (fs @ [X]))) \<subseteq> F \<union> {length h..<length h'}"
        using F by auto
      moreover have "\<forall>x < length h. x \<notin> F \<longrightarrow> h' ! x = h ! x"
        using old F by blast
      ultimately show ?thesis unfolding run val using len by blast
    qed
  qed
qed

section \<open>Quoting\<close>




section \<open>Serialization\<close>

text \<open>
  C7. Formatting the empty tree at depth 0 into an empty builder writes exactly the four
  bytes \<^verbatim>\<open>{\<close>, newline, \<^verbatim>\<open>}\<close>, newline, and returns no error.
\<close>

theorem format_empty:
  "format L Builder_Write [] [] 0 = ([CHR ''{'', newline, CHR ''}'', newline], None)"
  by (simp add: format.simps Builder_Write_def Repeat_def on_success_def)

subsection \<open>format performs the writes of chunks, in order, up to the first error\<close>

lemma chunks_entry:
  "chunks L dict depth =
     [''{'' @ [newline]] @ concat (map (entry_chunks L dict depth) (sort (map fst dict))) @
     [Repeat [tab] depth @ ''}''] @ (if depth \<noteq> 0 then ['';''] else []) @ [[newline]]"
  unfolding entry_chunks_def by (subst chunks.simps) (rule refl)

lemma chunks_neq_Nil: "chunks L dict depth \<noteq> []"
  by (subst chunks_entry) simp

lemma on_success_return: "on_success r (\<lambda>s. (s, None)) = r"
  by (auto simp: on_success_def split: prod.splits option.splits)

lemma on_success_None: "on_success (s, None) f = f s"
  by (simp add: on_success_def)

lemma writes_append:
  "writes w s (ps @ qs) = on_success (writes w s ps) (\<lambda>s. writes w s qs)"
proof (induction ps arbitrary: s)
  case Nil
  then show ?case by (simp add: on_success_def)
next
  case (Cons p ps)
  then show ?case
    by (cases "w s p") (auto simp: on_success_def split: option.splits)
qed

lemma format_writes:
  "format L w s dict depth = writes w s (chunks L dict depth)"
  "format_keys L w s dict depth keys = writes w s (concat (map (entry_chunks L dict depth) keys))"
  "format_val L w s v depth =
     writes w s (case v of
        Some (Leaf val) \<Rightarrow> [''(\"insertText:\", '' @ quote L val @ '');'' @ [newline]]
      | Some (Interior val) \<Rightarrow> chunks L val (depth + 1)
      | None \<Rightarrow> [])"
proof (induction L w s dict depth and L w s dict depth keys and L w s v depth
       rule: format_format_keys_format_val.induct)
  case (1 L w s dict depth)
  have keys: "format_keys L w sa dict depth (sort (map fst dict)) =
      writes w sa (concat (map (entry_chunks L dict depth) (sort (map fst dict))))"
    if "w s [CHR ''{'', newline] = (sa, None)" for sa
    using 1 that by simp
  have tail: "on_success (if depth \<noteq> 0 then w sb '';'' else (sb, None)) (\<lambda>s. w s [newline]) =
      on_success (writes w sb (if depth \<noteq> 0 then ['';''] else []))
        (\<lambda>s. on_success (w s [newline]) (\<lambda>s. (s, None)))" for sb
    by (simp add: on_success_return on_success_None)
  show ?case
    apply (subst format.simps)
    apply (subst chunks_entry)
    apply (simp only: append_Cons append_Nil writes.simps writes_append)
    apply (rule on_success_cong [OF refl])
    apply (simp only: keys)
    apply (rule on_success_cong [OF refl])
    apply (rule on_success_cong [OF refl])
    apply (rule tail)
    done
next
  case (2 L w s dict depth)
  then show ?case by simp
next
  case (3 L w s dict depth k keys)
  let ?line = "Repeat [tab] (depth + 1) @ quote L k @ '' = ''"
  have v: "format_val L w sa (map_of dict k) depth =
      writes w sa (tl (entry_chunks L dict depth k))" if "w s ?line = (sa, None)" for sa
    using 3(1) that by (simp add: entry_chunks_def)
  have r: "format_keys L w sb dict depth keys =
      writes w sb (concat (map (entry_chunks L dict depth) keys))"
    if "w s ?line = (sa, None)" "format_val L w sa (map_of dict k) depth = (sb, None)" for sa sb
    using 3(2) that by simp
  have e: "entry_chunks L dict depth k = ?line # tl (entry_chunks L dict depth k)"
    by (simp add: entry_chunks_def)
  show ?case
    apply (subst format_keys.simps)
    apply (simp only: list.map concat.simps)
    apply (subst e)
    apply (simp only: append_Cons writes.simps writes_append)
    apply (rule on_success_cong [OF refl])
    apply (simp only: v)
    apply (rule on_success_cong [OF refl])
    apply (rule r, assumption)
    apply (simp only: v)
    done
next
  case (4 L w s val depth)
  then show ?case by (simp add: on_success_def split: prod.splits option.splits)
next
  case (5 L w s val depth)
  then show ?case by simp
next
  case (6 L w s depth)
  then show ?case by simp
qed

subsection \<open>Write errors\<close>

lemma logged_apply:
  "logged w (log, s) p = (case w s p of (s', r) \<Rightarrow> ((log @ [(p, r)], s'), r))"
  by (simp add: logged_def)

lemma writes_logged:
  assumes "writes (logged w) (log, s) ps = ((log', s'), r)"
  shows "writes w s ps = (s', r) \<and>
         (\<exists>new. log' = log @ new \<and> (\<forall>x\<in>set (butlast new). snd x = None) \<and>
                (ps \<noteq> [] \<longrightarrow> new \<noteq> [] \<and> r = snd (last new)))"
  using assms
proof (induction ps arbitrary: log s)
  case Nil
  then show ?case by simp
next
  case (Cons p ps)
  obtain s1 r1 where w: "w s p = (s1, r1)" by (cases "w s p")
  show ?case
  proof (cases r1)
    case (Some e)
    with w Cons.prems show ?thesis
      by (auto simp: logged_apply on_success_def)
  next
    case None
    with w Cons.prems have rest: "writes (logged w) (log @ [(p, None)], s1) ps = ((log', s'), r)"
      by (simp add: logged_apply on_success_def)
    from Cons.IH [OF rest] obtain new where
      ws: "writes w s1 ps = (s', r)" and
      l: "log' = (log @ [(p, None)]) @ new" and
      b: "\<forall>x\<in>set (butlast new). snd x = None" and
      n: "ps \<noteq> [] \<longrightarrow> new \<noteq> [] \<and> r = snd (last new)"
      by blast
    have r: "ps = [] \<Longrightarrow> new = [] \<and> r = None"
      using rest l by auto
    have "writes w s (p # ps) = (s', r)"
      using w None ws by (simp add: on_success_def)
    moreover have "log' = log @ ((p, None) # new)" using l by simp
    moreover have "\<forall>x\<in>set (butlast ((p, None) # new)). snd x = None"
      using b by auto
    moreover have "r = snd (last ((p, None) # new))"
      using n r by (cases "ps = []") auto
    ultimately show ?thesis by blast
  qed
qed

text \<open>
  C6. Run \<open>format\<close> on any writer \<open>w\<close>, keeping a log of the calls of
  \<^verbatim>\<open>Write\<close>. The result of \<open>format\<close> is the result of the last call in the log, and
  every call before the last one returned no error. So a call that fails is the last one
  made, and \<open>format\<close> returns its error as it is; when no call fails, \<open>format\<close> returns
  no error. The log changes nothing: on \<open>w\<close> itself \<open>format\<close> ends in the same state with
  the same result.
\<close>

theorem format_write_error:
  assumes "format L (logged w) ([], s) dict depth = ((log, s'), r)"
  shows "log \<noteq> [] \<and> r = snd (last log) \<and> (\<forall>x\<in>set (butlast log). snd x = None) \<and>
         format L w s dict depth = (s', r)"
proof -
  have "writes (logged w) ([], s) (chunks L dict depth) = ((log, s'), r)"
    using assms by (simp add: format_writes(1))
  from writes_logged [OF this] chunks_neq_Nil [of L dict depth]
  show ?thesis by (auto simp: format_writes(1))
qed

lemmas format_eval =
  format.simps on_success_def Builder_Write_def Repeat_def quote_def HasPrefix_def
  example_lib_def logged_apply fail_at_def

text \<open>
  A sink whose second call fails: \<open>format\<close> makes two calls and returns the error of the
  second; the closing brace is never written.
\<close>

theorem format_write_error_witness:
  \<open>format example_lib (logged (fail_at 1)) ([], 0) [(''1'', Leaf ''text'')] 0 =
     (([(''{'' @ [newline], None), ([tab] @ ''"1" = '', Some ''write failed'')], 2),
      Some ''write failed'') \<and>
   format example_lib (fail_at 1) 0 [(''1'', Leaf ''text'')] 0 = (2, Some ''write failed'')\<close>
proof -
  have h: \<open>format example_lib (logged (fail_at 1)) ([], 0) [(''1'', Leaf ''text'')] 0 =
     (([(''{'' @ [newline], None), ([tab] @ ''"1" = '', Some ''write failed'')], 2),
      Some ''write failed'')\<close>
    by (simp add: format_eval)
  show ?thesis
    using h format_write_error [OF h] by simp
qed

subsection \<open>The text written\<close>

lemma writes_Builder: "writes Builder_Write buf ps = (buf @ concat ps, None)"
  by (induction ps arbitrary: buf) (auto simp: Builder_Write_def on_success_def)

lemma format_Builder:
  "format L Builder_Write buf dict depth = (buf @ concat (chunks L dict depth), None)"
  by (simp add: format_writes(1) writes_Builder)

lemma rendered_chunks: "rendered L dict depth = concat (chunks L dict depth)"
  by (simp add: rendered_def format_Builder)

lemma Repeat_tab: "Repeat [tab] n = replicate n tab"
  by (induction n) (auto simp: Repeat_def)

lemma concat_concat_map: "concat (concat (map f xs)) = concat (map (\<lambda>x. concat (f x)) xs)"
  by (induction xs) auto

text \<open>
  C4. Into a builder \<open>format\<close> appends the text \<open>rendered L dict depth\<close> and returns no
  error, and that text is: an opening brace and a newline; for each key in sorted order,
  \<open>depth + 1\<close> tabs, the quoted key, \<^verbatim>\<open> = \<close> and then either the leaf's
  \<^verbatim>\<open>("insertText:", \<close>, quoted value, \<^verbatim>\<open>);\<close> and a newline, or the text of the
  nested map at \<open>depth + 1\<close>; then \<open>depth\<close> tabs and the closing brace, a semicolon exactly
  when the depth is not 0, and a newline.
\<close>

theorem format_layout:
  \<open>format L Builder_Write buf dict depth = (buf @ rendered L dict depth, None) \<and>
   rendered L dict depth =
     ''{'' @ [newline] @
     concat (map (\<lambda>k. replicate (depth + 1) tab @ quote L k @ '' = '' @
                       (case map_of dict k of
                          Some (Leaf val) \<Rightarrow> ''("insertText:", '' @ quote L val @ '');'' @ [newline]
                        | Some (Interior val) \<Rightarrow> rendered L val (depth + 1)
                        | None \<Rightarrow> []))
                 (sort (map fst dict))) @
     replicate depth tab @ ''}'' @ (if depth \<noteq> 0 then '';'' else []) @ [newline]\<close>
proof -
  have e: "concat (entry_chunks L dict depth k) =
      replicate (depth + 1) tab @ quote L k @ '' = '' @
        (case map_of dict k of
           Some (Leaf val) \<Rightarrow> ''(\"insertText:\", '' @ quote L val @ '');'' @ [newline]
         | Some (Interior val) \<Rightarrow> rendered L val (depth + 1)
         | None \<Rightarrow> [])" for k
    by (simp add: entry_chunks_def rendered_chunks Repeat_tab del: replicate_Suc
          split: option.splits node.splits)
  have "rendered L dict depth = concat (chunks L dict depth)"
    by (rule rendered_chunks)
  also have "\<dots> = ''{'' @ [newline] @
      concat (map (\<lambda>k. concat (entry_chunks L dict depth k)) (sort (map fst dict))) @
      replicate depth tab @ ''}'' @ (if depth \<noteq> 0 then '';'' else []) @ [newline]"
    by (subst chunks_entry) (simp add: Repeat_tab concat_concat_map del: replicate_Suc)
  finally show ?thesis
    by (simp only: e format_Builder rendered_chunks [symmetric] simp_thms)
qed

text \<open>
  The cases of the repository's test: the trees that \<open>insert\<close> builds and the text that
  \<open>format\<close> writes are the expected ones.
\<close>

lemma test_one_by_two:
  \<open>insert_dict [] ''text'' [''1'', ''2''] = [(''1'', Interior [(''2'', Leaf ''text'')])] \<and>
   format example_lib Builder_Write [] [(''1'', Interior [(''2'', Leaf ''text'')])] 0 =
     (''{'' @ [newline] @
      [tab] @ ''"1" = {'' @ [newline] @
      [tab, tab] @ ''"2" = ("insertText:", "text");'' @ [newline] @
      [tab] @ ''};'' @ [newline] @
      ''}'' @ [newline], None)\<close>
  by (simp add: format_eval)

lemma test_two_by_one:
  \<open>insert_dict (insert_dict [] ''text1'' [''1'']) ''text2'' [''2''] =
     [(''1'', Leaf ''text1''), (''2'', Leaf ''text2'')] \<and>
   format example_lib Builder_Write [] [(''1'', Leaf ''text1''), (''2'', Leaf ''text2'')] 0 =
     (''{'' @ [newline] @
      [tab] @ ''"1" = ("insertText:", "text1");'' @ [newline] @
      [tab] @ ''"2" = ("insertText:", "text2");'' @ [newline] @
      ''}'' @ [newline], None)\<close>
  by (simp add: format_eval)

lemma test_two_by_two:
  \<open>insert_dict (insert_dict [] ''text1'' [''1'', ''2'']) ''text2'' [''1'', ''3''] =
     [(''1'', Interior [(''2'', Leaf ''text1''), (''3'', Leaf ''text2'')])] \<and>
   format example_lib Builder_Write []
     [(''1'', Interior [(''2'', Leaf ''text1''), (''3'', Leaf ''text2'')])] 0 =
     (''{'' @ [newline] @
      [tab] @ ''"1" = {'' @ [newline] @
      [tab, tab] @ ''"2" = ("insertText:", "text1");'' @ [newline] @
      [tab, tab] @ ''"3" = ("insertText:", "text2");'' @ [newline] @
      [tab] @ ''};'' @ [newline] @
      ''}'' @ [newline], None)\<close>
  by (simp add: format_eval)

subsection \<open>Determinism\<close>







end
